theory Spec2Isabelle
  imports Main "HOL-Library.Multiset"
begin

section \<open>Strings\<close>

text \<open>
  The converter is TypeScript; its strings are sequences of UTF-16 code units. Here a string
  is a \<^typ>\<open>char list\<close> and a \<^typ>\<open>char\<close> is read as the code point of the same number
  (U+0000 to U+00FF), which covers every character of the preference table and of the
  markup the converter looks for. The library functions of the host used on strings are
  written out below for that range.
\<close>

text \<open>The class \<^verbatim>\<open>\d\<close> of a regular expression without the unicode flag: the ten ASCII digits.\<close>

definition is_digit :: "char \<Rightarrow> bool" where
  "is_digit c = (c \<in> set ''0123456789'')"

text \<open>
  The characters that \<^verbatim>\<open>.\<close> refuses to match (no \<^verbatim>\<open>s\<close> flag): the line terminators. Of the
  four of ECMAScript (LF, CR, U+2028, U+2029) the first two lie in the range of \<^typ>\<open>char\<close>.
\<close>

definition lineTerminator :: "char \<Rightarrow> bool" where
  "lineTerminator c = (c = CHR 0x0A \<or> c = CHR 0x0D)"

text \<open>
  \<^verbatim>\<open>String.prototype.toLowerCase\<close> on one code point below U+0100: the letters A to Z and the
  Latin-1 capitals U+00C0 to U+00DE (the multiplication sign U+00D7 apart) move up by 32,
  everything else stays.
\<close>

definition lower_char :: "char \<Rightarrow> char" where
  "lower_char c =
     (let n = (of_char c :: nat)
      in if (65 \<le> n \<and> n \<le> 90) \<or> (192 \<le> n \<and> n \<le> 222 \<and> n \<noteq> 215)
         then char_of (n + 32) else c)"

definition toLowerCase :: "string \<Rightarrow> string" where
  "toLowerCase s = map lower_char s"

text \<open>\<^verbatim>\<open>text.startsWith(pat)\<close> and \<^verbatim>\<open>text.includes(pat)\<close>.\<close>

fun startsWith :: "string \<Rightarrow> string \<Rightarrow> bool" where
  "startsWith text [] = True"
| "startsWith [] (p # ps) = False"
| "startsWith (c # cs) (p # ps) = (c = p \<and> startsWith cs ps)"

fun includes_str :: "string \<Rightarrow> string \<Rightarrow> bool" where
  "includes_str [] pat = (pat = [])"
| "includes_str (c # cs) pat = (startsWith (c # cs) pat \<or> includes_str cs pat)"

text \<open>\<^verbatim>\<open>xs.join(sep)\<close>.\<close>

fun join :: "string \<Rightarrow> string list \<Rightarrow> string" where
  "join sep [] = []"
| "join sep [x] = x"
| "join sep (x # y # ys) = x @ sep @ join sep (y # ys)"

text \<open>
  \<^verbatim>\<open>s.replaceAll(/(\d+)/g, '')\<close>: every run of digits is replaced by the empty string, which
  leaves the characters that are not digits.
\<close>

definition strip_digits :: "string \<Rightarrow> string" where
  "strip_digits s = filter (\<lambda>c. \<not> is_digit c) s"

text \<open>
  \<^verbatim>\<open>s.match(/(\d+)/)?.[0]\<close>: the leftmost match of a greedy run of digits, \<open>None\<close> standing for
  \<^verbatim>\<open>undefined\<close> when the string holds no digit.
\<close>

definition first_digits :: "string \<Rightarrow> string option" where
  "first_digits s =
     (case dropWhile (\<lambda>c. \<not> is_digit c) s of
        [] \<Rightarrow> None
      | d # rest \<Rightarrow> Some (takeWhile is_digit (d # rest)))"

subsection \<open>The bracket pattern\<close>

text \<open>
  \<^verbatim>\<open>name.match(/\[(.*)]/)\<close>, element 0 of the result. A backtracking matcher tries every
  start index from the left. At a start index it needs an opening bracket, lets \<^verbatim>\<open>.*\<close>
  take the longest run of characters that are not line terminators, and gives characters
  back one at a time until a closing bracket follows.
\<close>

fun close_bracket :: "string \<Rightarrow> nat \<Rightarrow> nat option" where
  "close_bracket cs 0 = (if startsWith cs '']'' then Some 0 else None)"
| "close_bracket cs (Suc k) =
     (if startsWith (drop (Suc k) cs) '']'' then Some (Suc k) else close_bracket cs k)"

definition match_here :: "string \<Rightarrow> string option" where
  "match_here s =
     (case s of
        [] \<Rightarrow> None
      | c # cs \<Rightarrow>
          if c \<noteq> CHR ''['' then None
          else (case close_bracket cs (length (takeWhile (\<lambda>d. \<not> lineTerminator d) cs)) of
                  None \<Rightarrow> None
                | Some k \<Rightarrow> Some (c # take (Suc k) cs)))"

fun match_bracket :: "string \<Rightarrow> string option" where
  "match_bracket [] = None"
| "match_bracket (c # cs) =
     (case match_here (c # cs) of
        Some m \<Rightarrow> Some m
      | None \<Rightarrow> match_bracket cs)"

text \<open>
  The reading of the pattern as "the first opening bracket and the next closing bracket
  after it", for comparison with \<^const>\<open>match_bracket\<close>.
\<close>

definition first_pair_key :: "string \<Rightarrow> string option" where
  "first_pair_key s =
     (case dropWhile (\<lambda>c. c \<noteq> CHR ''['') s of
        [] \<Rightarrow> None
      | b # rest \<Rightarrow>
          if CHR '']'' \<in> set rest
          then Some (b # takeWhile (\<lambda>c. c \<noteq> CHR '']'') rest @ '']'')
          else None)"

section \<open>The order resolver\<close>

record NoteAndName =
  note_id :: string
  name :: string

record PreferredOrderGrouping =
  key :: string
  order :: int
  group_notes :: "string list"

text \<open>The table as the program holds it: the authored list, reversed once at start-up.\<close>

definition PREFERRED_ORDERS :: "string list" where
  "PREFERRED_ORDERS = rev
     [''hat'', ''kick'', ''kick 2'', ''kick 1'', ''snare'',
      ''crash 3'', ''crash 2'', ''crash 1'', ''crash'',
      ''ride'', ''ride 3'', ''ride 2'', ''ride 1'',
      ''splash 2'', ''splash 1'', ''splash'',
      ''cymbal 4'', ''cymbal 3'', ''cymbal 2'', ''cymbal 1'', ''cymbal'',
      ''racktom 4'', ''racktom 3'', ''racktom 2'', ''racktom 1'', ''racktom'',
      ''floortom 4'', ''floortom 3'', ''floortom 2'', ''floortom 1'', ''floortom'']"

text \<open>\<^verbatim>\<open>xs.findIndex(p)\<close>: the index of the first element that satisfies \<open>p\<close>, or -1.\<close>

fun findIndex_from :: "int \<Rightarrow> ('a \<Rightarrow> bool) \<Rightarrow> 'a list \<Rightarrow> int" where
  "findIndex_from i p [] = -1"
| "findIndex_from i p (x # xs) = (if p x then i else findIndex_from (i + 1) p xs)"

definition findIndex :: "('a \<Rightarrow> bool) \<Rightarrow> 'a list \<Rightarrow> int" where
  "findIndex p xs = findIndex_from 0 p xs"

text \<open>
  The callback given to \<^verbatim>\<open>findIndex\<close> in \<^verbatim>\<open>groupByPreferred\<close>: does the table entry
  \<open>instrument\<close> match the group key?
\<close>

definition instrument_found :: "string \<Rightarrow> string \<Rightarrow> bool" where
  "instrument_found curGroupKey instrument =
     (let curGroupKeyLower = toLowerCase curGroupKey;
          instWithoutNum = toLowerCase (strip_digits instrument);
          hasInstName = includes_str curGroupKeyLower instWithoutNum
      in if hasInstName then
           (let instOnlyNum = first_digits instrument;
                curGroupKeyInstNumber = first_digits curGroupKey
            in if length instWithoutNum = length instrument then True
               else if curGroupKeyInstNumber = instOnlyNum then True
               else False)
         else False)"

text \<open>
  \<^verbatim>\<open>group.notes.push(note)\<close> on the group that \<^verbatim>\<open>allGroups.find\<close> returned: the first group
  with the key, updated in place.
\<close>

fun push_note :: "string \<Rightarrow> string \<Rightarrow> PreferredOrderGrouping list \<Rightarrow> PreferredOrderGrouping list" where
  "push_note k n [] = []"
| "push_note k n (g # gs) =
     (if key g = k then g\<lparr>group_notes := group_notes g @ [n]\<rparr> # gs else g # push_note k n gs)"

text \<open>One step of the first \<^verbatim>\<open>reduce\<close>; the table is a parameter.\<close>

definition add_entry ::
  "string list \<Rightarrow> PreferredOrderGrouping list \<Rightarrow> NoteAndName \<Rightarrow> PreferredOrderGrouping list" where
  "add_entry table allGroups e =
     (case match_bracket (name e) of
        None \<Rightarrow> allGroups
      | Some curGroupKey \<Rightarrow>
          (case find (\<lambda>g. key g = curGroupKey) allGroups of
             Some existing \<Rightarrow> push_note curGroupKey (note_id e) allGroups
           | None \<Rightarrow>
               allGroups @
               [\<lparr>key = curGroupKey,
                 order = findIndex (instrument_found curGroupKey) table,
                 group_notes = [note_id e]\<rparr>]))"

definition collect_groups :: "string list \<Rightarrow> NoteAndName list \<Rightarrow> PreferredOrderGrouping list" where
  "collect_groups table notesAndNames = foldl (add_entry table) [] notesAndNames"

text \<open>The comparator given to \<^verbatim>\<open>groups.sort\<close>.\<close>

definition compare_groups :: "PreferredOrderGrouping \<Rightarrow> PreferredOrderGrouping \<Rightarrow> int" where
  "compare_groups a b =
     (if order a = -1 then -1
      else if order b = -1 then 1
      else if order a > order b then 1
      else if order a < order b then -1
      else 0)"

text \<open>
  \<^verbatim>\<open>Array.prototype.sort\<close> belongs to the host. ECMAScript asks for a stable sort and leaves
  the order to the implementation when the comparator is not consistent, which
  \<^const>\<open>compare_groups\<close> is not once a group has order -1 (it answers -1 for such a group
  against itself). The model is the insertion sort that Node's engine runs on arrays of
  fewer than 64 elements: each element in turn is placed before the first element of the
  sorted part that it compares below.
\<close>

fun insert_sorted :: "('a \<Rightarrow> 'a \<Rightarrow> int) \<Rightarrow> 'a \<Rightarrow> 'a list \<Rightarrow> 'a list" where
  "insert_sorted cmp x [] = [x]"
| "insert_sorted cmp x (y # ys) =
     (if cmp x y < 0 then x # y # ys else y # insert_sorted cmp x ys)"

definition sort_with :: "('a \<Rightarrow> 'a \<Rightarrow> int) \<Rightarrow> 'a list \<Rightarrow> 'a list" where
  "sort_with cmp xs = foldl (\<lambda>sorted_part x. insert_sorted cmp x sorted_part) [] xs"

definition sorted_groups :: "string list \<Rightarrow> NoteAndName list \<Rightarrow> PreferredOrderGrouping list" where
  "sorted_groups table notesAndNames = sort_with compare_groups (collect_groups table notesAndNames)"

definition no_line :: "string \<Rightarrow> string" where
  "no_line n = ''NO '' @ n"

definition groupByPreferred_in :: "string list \<Rightarrow> NoteAndName list \<Rightarrow> string list" where
  "groupByPreferred_in table notesAndNames =
     concat (map (\<lambda>g. map no_line (group_notes g)) (sorted_groups table notesAndNames))"

definition groupByPreferred :: "NoteAndName list \<Rightarrow> string list" where
  "groupByPreferred notesAndNames = groupByPreferred_in PREFERRED_ORDERS notesAndNames"

section \<open>The extractor and the payload\<close>

text \<open>
  The parsed document, as far as the selectors of the converter can see it: an element has
  a tag name, attributes and child elements (text nodes match no selector). The model
  starts from the root element that the parser returned; reading and parsing the file are
  outside it.
\<close>

datatype element =
  Element (tagName: string) (attributes: "(string \<times> string) list") (children: "element list")

text \<open>\<^verbatim>\<open>el.getAttribute(n)\<close>, \<open>None\<close> standing for \<^verbatim>\<open>null\<close>.\<close>

definition getAttribute :: "element \<Rightarrow> string \<Rightarrow> string option" where
  "getAttribute el n = map_of (attributes el) n"

text \<open>The descendants of an element in document order, which is the order of a selector's matches.\<close>

fun descendants :: "element \<Rightarrow> element list" where
  "descendants (Element t as cs) = concat (map (\<lambda>c. c # descendants c) cs)"

text \<open>A value that is a string, \<^verbatim>\<open>null\<close> or \<^verbatim>\<open>undefined\<close>, and what a template literal prints for it.\<close>

datatype js_string = Undefined | Null | Str string

fun to_string :: "js_string \<Rightarrow> string" where
  "to_string Undefined = ''undefined''"
| "to_string Null = ''null''"
| "to_string (Str s) = s"

text \<open>\<^verbatim>\<open>drumMap.querySelector(':root > string')?.getAttribute('value')\<close>\<close>

definition headerName :: "element \<Rightarrow> js_string" where
  "headerName drumMap =
     (case find (\<lambda>c. tagName c = ''string'') (children drumMap) of
        None \<Rightarrow> Undefined
      | Some el \<Rightarrow> (case getAttribute el ''value'' of None \<Rightarrow> Null | Some v \<Rightarrow> Str v))"

text \<open>
  \<^verbatim>\<open>drumMap.querySelectorAll(':root > list[name="N"][type="T"] > item')\<close>: the \<^verbatim>\<open>item\<close> children
  of the matching \<^verbatim>\<open>list\<close> children of the root.
\<close>

definition list_items :: "string \<Rightarrow> string \<Rightarrow> element \<Rightarrow> element list" where
  "list_items n t drumMap =
     concat (map (\<lambda>l. filter (\<lambda>i. tagName i = ''item'') (children l))
       (filter (\<lambda>l. tagName l = ''list'' \<and> getAttribute l ''name'' = Some n
                     \<and> getAttribute l ''type'' = Some t)
          (children drumMap)))"

definition mapList :: "element \<Rightarrow> element list" where
  "mapList drumMap = list_items ''Map'' ''list'' drumMap"

text \<open>\<^verbatim>\<open>entry.querySelector('T[name="N"]')?.getAttribute('value') ?? ''\<close>\<close>

definition entry_value :: "string \<Rightarrow> string \<Rightarrow> element \<Rightarrow> string" where
  "entry_value t n entry =
     (case find (\<lambda>d. tagName d = t \<and> getAttribute d ''name'' = Some n) (descendants entry) of
        None \<Rightarrow> []
      | Some el \<Rightarrow> (case getAttribute el ''value'' of None \<Rightarrow> [] | Some v \<Rightarrow> v))"

definition add_note_and_name :: "NoteAndName list \<Rightarrow> element \<Rightarrow> NoteAndName list" where
  "add_note_and_name filteredNotesAndNames entry =
     (let name = entry_value ''string'' ''Name'' entry;
          note = entry_value ''int'' ''INote'' entry
      in if length name = 0 \<or> length note = 0 then filteredNotesAndNames
         else filteredNotesAndNames @ [\<lparr>note_id = note, name = name\<rparr>])"

definition notesAndNames :: "element \<Rightarrow> NoteAndName list" where
  "notesAndNames drumMap = foldl add_note_and_name [] (mapList drumMap)"

text \<open>
  The values of the \<^verbatim>\<open>Order\<close> list, in document order; an item without the attribute gives
  \<^verbatim>\<open>null\<close>, here \<open>None\<close>.
\<close>

definition explicitOrder :: "element \<Rightarrow> string option list" where
  "explicitOrder drumMap = map (\<lambda>entry. getAttribute entry ''value'') (list_items ''Order'' ''int'' drumMap)"

text \<open>
  One step of the \<^verbatim>\<open>reduce\<close> over the \<^verbatim>\<open>Order\<close> items: \<^verbatim>\<open>null\<close> is the note of no entry, since
  every note is a string.
\<close>

definition add_order_item :: "NoteAndName list \<Rightarrow> string list \<Rightarrow> string option \<Rightarrow> string list" where
  "add_order_item entries filteredOrderItems orderValue =
     (case orderValue of
        None \<Rightarrow> filteredOrderItems
      | Some v \<Rightarrow>
          (case find (\<lambda>e. note_id e = v) entries of
             None \<Rightarrow> filteredOrderItems
           | Some e \<Rightarrow> filteredOrderItems @ [no_line v]))"

text \<open>
  \<open>orderItems\<close>: the flag \<open>usePreferredGrouping\<close> is the process-wide value of the program
  as its conditions read it (true for any non-empty fourth argument).
\<close>

definition orderItems_in :: "string list \<Rightarrow> bool \<Rightarrow> element \<Rightarrow> string list" where
  "orderItems_in table usePreferredGrouping drumMap =
     (if usePreferredGrouping then groupByPreferred_in table (notesAndNames drumMap)
      else foldl (add_order_item (notesAndNames drumMap)) [] (explicitOrder drumMap))"

datatype error = AssertionError

definition payload :: "js_string \<Rightarrow> NoteAndName list \<Rightarrow> string list \<Rightarrow> string" where
  "payload header entries orderItems =
     ''# '' @ to_string header @ [CHR 0x0A] @
     join [CHR 0x0A] (map (\<lambda>e. note_id e @ '' '' @ name e) entries) @ [CHR 0x0A] @
     ''# Grouped order'' @ [CHR 0x0A] @
     join [CHR 0x0A] orderItems @ [CHR 0x0A]"

definition convertDRMFileToText_in :: "string list \<Rightarrow> bool \<Rightarrow> element \<Rightarrow> error + string" where
  "convertDRMFileToText_in table usePreferredGrouping drumMap =
     (let entries = notesAndNames drumMap;
          orderItems = orderItems_in table usePreferredGrouping drumMap
      in if \<not> usePreferredGrouping \<and> length orderItems \<noteq> length entries
         then Inl AssertionError
         else Inr (payload (headerName drumMap) entries orderItems))"

definition convertDRMFileToText :: "bool \<Rightarrow> element \<Rightarrow> error + string" where
  "convertDRMFileToText usePreferredGrouping drumMap =
     convertDRMFileToText_in PREFERRED_ORDERS usePreferredGrouping drumMap"

text \<open>The text up to the first line feed.\<close>

definition first_line :: "string \<Rightarrow> string" where
  "first_line s = takeWhile (\<lambda>c. c \<noteq> CHR 0x0A) s"

subsection \<open>What the groups hold\<close>

text \<open>
  The state of \<open>allGroups\<close> after the entries \<open>xs\<close>: one group for each key met, with the
  rank of the key and the notes of the entries of that key in the order of \<open>xs\<close>.
\<close>

definition groups_invariant :: "string list \<Rightarrow> NoteAndName list \<Rightarrow> PreferredOrderGrouping list \<Rightarrow> bool" where
  "groups_invariant t xs gs \<longleftrightarrow>
     distinct (map key gs) \<and>
     (\<forall>e\<in>set xs. \<forall>k. match_bracket (name e) = Some k \<longrightarrow> k \<in> set (map key gs)) \<and>
     (\<forall>g\<in>set gs.
        order g = findIndex (instrument_found (key g)) t \<and>
        group_notes g = map note_id (filter (\<lambda>e. match_bracket (name e) = Some (key g)) xs))"

section \<open>Properties of the string functions\<close>

lemma startsWith_iff: "startsWith t p \<longleftrightarrow> (\<exists>r. t = p @ r)"
  by (induction t p rule: startsWith.induct) auto

lemma includes_str_iff: "includes_str t p \<longleftrightarrow> (\<exists>a b. t = a @ p @ b)"
proof (induction t)
  case Nil
  show ?case by auto
next
  case (Cons c cs)
  show ?case
  proof
    assume "includes_str (c # cs) p"
    then consider "startsWith (c # cs) p" | "includes_str cs p" by auto
    then show "\<exists>a b. c # cs = a @ p @ b"
    proof cases
      case 1
      then obtain r where "c # cs = p @ r" by (auto simp: startsWith_iff)
      then have "c # cs = [] @ p @ r" by simp
      then show ?thesis by blast
    next
      case 2
      then obtain a b where "cs = a @ p @ b" using Cons.IH by blast
      then have "c # cs = (c # a) @ p @ b" by simp
      then show ?thesis by blast
    qed
  next
    assume "\<exists>a b. c # cs = a @ p @ b"
    then obtain a b where ab: "c # cs = a @ p @ b" by blast
    show "includes_str (c # cs) p"
    proof (cases a)
      case Nil
      with ab have "startsWith (c # cs) p" by (auto simp: startsWith_iff)
      then show ?thesis by simp
    next
      case (Cons a0 as)
      with ab have "cs = as @ p @ b" by simp
      then have "includes_str cs p" using Cons.IH by blast
      then show ?thesis by simp
    qed
  qed
qed

lemma length_toLowerCase: "length (toLowerCase s) = length s"
  by (simp add: toLowerCase_def)

lemma strip_digits_id: "\<forall>c\<in>set s. \<not> is_digit c \<Longrightarrow> strip_digits s = s"
  by (simp add: strip_digits_def)

lemma length_strip_digits_less:
  "\<exists>c\<in>set s. is_digit c \<Longrightarrow> length (strip_digits s) < length s"
  unfolding strip_digits_def
  by (metis (mono_tags, lifting) length_filter_less)

section \<open>Properties of the explicit order\<close>

lemma explicit_items:
  "foldl (add_order_item entries) acc ovs =
     acc @ map no_line (filter (\<lambda>v. v \<in> set (map note_id entries)) (List.map_filter (\<lambda>x. x) ovs))"
proof (induction ovs arbitrary: acc)
  case Nil
  show ?case by (simp add: List.map_filter_simps)
next
  case (Cons ov ovs)
  show ?case
  proof (cases ov)
    case None
    then show ?thesis using Cons.IH by (simp add: add_order_item_def List.map_filter_simps)
  next
    case (Some v)
    show ?thesis
    proof (cases "find (\<lambda>e. note_id e = v) entries")
      case None
      then have "v \<notin> set (map note_id entries)" by (auto simp: find_None_iff)
      with None Some show ?thesis
        using Cons.IH by (simp add: add_order_item_def List.map_filter_simps)
    next
      case (Some e)
      then have "v \<in> set (map note_id entries)"
        by (metis (mono_tags, lifting) find_None_iff image_eqI list.set_map option.distinct(1))
      with Some \<open>ov = Some v\<close> show ?thesis
        using Cons.IH by (simp add: add_order_item_def List.map_filter_simps)
    qed
  qed
qed

section \<open>Properties of the grouping\<close>

lemma collect_groups_snoc:
  "collect_groups t (xs @ [e]) = add_entry t (collect_groups t xs) e"
  by (simp add: collect_groups_def)

lemma sort_with_snoc:
  "sort_with cmp (xs @ [x]) = insert_sorted cmp x (sort_with cmp xs)"
  by (simp add: sort_with_def)

lemma mset_insert_sorted: "mset (insert_sorted cmp x ys) = add_mset x (mset ys)"
  by (induction ys) auto

lemma mset_sort_with: "mset (sort_with cmp xs) = mset xs"
proof (induction xs rule: rev_induct)
  case Nil
  show ?case by (simp add: sort_with_def)
next
  case (snoc x xs)
  then show ?case by (simp add: sort_with_snoc mset_insert_sorted)
qed

lemma set_sort_with: "set (sort_with cmp xs) = set xs"
  by (metis mset_sort_with set_mset_mset)

lemma map_key_push_note: "map key (push_note k n gs) = map key gs"
  by (induction gs) auto

lemma notes_push_note:
  "find (\<lambda>g. key g = k) gs \<noteq> None \<Longrightarrow>
   mset (concat (map group_notes (push_note k n gs))) = add_mset n (mset (concat (map group_notes gs)))"
  by (induction gs) auto

lemma notes_add_entry:
  "mset (concat (map group_notes (add_entry t gs e))) =
     mset (concat (map group_notes gs)) +
     (if match_bracket (name e) = None then {#} else {#note_id e#})"
  by (auto simp: add_entry_def notes_push_note split: option.splits)

lemma notes_collect_groups:
  "mset (concat (map group_notes (collect_groups t xs))) =
     mset (map note_id (filter (\<lambda>e. match_bracket (name e) \<noteq> None) xs))"
proof (induction xs rule: rev_induct)
  case Nil
  show ?case by (simp add: collect_groups_def)
next
  case (snoc e xs)
  then show ?case by (simp add: collect_groups_snoc notes_add_entry)
qed

lemma mset_concat_map_cong:
  "mset xs = mset ys \<Longrightarrow> mset (concat (map f xs)) = mset (concat (map f ys))"
proof -
  assume a: "mset xs = mset ys"
  have "mset (concat (map f xs)) = (\<Sum>x\<in>#mset xs. mset (f x))" for xs
    by (induction xs) auto
  with a show ?thesis by simp
qed

lemma groupByPreferred_in_notes:
  "groupByPreferred_in t xs = map no_line (concat (map group_notes (sorted_groups t xs)))"
  by (simp add: groupByPreferred_in_def map_concat comp_def)

lemma mset_groupByPreferred_in:
  "mset (groupByPreferred_in t xs) =
     mset (map (\<lambda>e. no_line (note_id e)) (filter (\<lambda>e. match_bracket (name e) \<noteq> None) xs))"
proof -
  have "mset (concat (map group_notes (sorted_groups t xs))) =
        mset (concat (map group_notes (collect_groups t xs)))"
    unfolding sorted_groups_def by (rule mset_concat_map_cong) (rule mset_sort_with)
  then have "mset (concat (map group_notes (sorted_groups t xs))) =
     mset (map note_id (filter (\<lambda>e. match_bracket (name e) \<noteq> None) xs))"
    by (simp add: notes_collect_groups)
  then have "mset (map no_line (concat (map group_notes (sorted_groups t xs)))) =
     mset (map no_line (map note_id (filter (\<lambda>e. match_bracket (name e) \<noteq> None) xs)))"
    by (simp only: mset_map)
  then show ?thesis
    by (simp only: groupByPreferred_in_notes map_map comp_def)
qed

text \<open>An entry without a bracketed substring leaves the groups as they are.\<close>

lemma add_entry_unbracketed: "match_bracket (name e) = None \<Longrightarrow> add_entry t gs e = gs"
  by (simp add: add_entry_def)

lemma collect_groups_filter:
  "collect_groups t (filter (\<lambda>e. match_bracket (name e) \<noteq> None) xs) = collect_groups t xs"
proof (induction xs rule: rev_induct)
  case Nil
  show ?case by simp
next
  case (snoc e xs)
  then show ?case
    by (cases "match_bracket (name e)") (simp_all add: collect_groups_snoc add_entry_unbracketed)
qed

lemma groupByPreferred_in_filter:
  "groupByPreferred_in t (filter (\<lambda>e. match_bracket (name e) \<noteq> None) xs) = groupByPreferred_in t xs"
  by (simp only: groupByPreferred_in_def sorted_groups_def collect_groups_filter)

lemma groupByPreferred_in_drop:
  assumes "match_bracket (name e) = None"
  shows "groupByPreferred_in t (xs @ e # ys) = groupByPreferred_in t (xs @ ys)"
proof -
  have "filter (\<lambda>e. match_bracket (name e) \<noteq> None) (xs @ e # ys) =
        filter (\<lambda>e. match_bracket (name e) \<noteq> None) (xs @ ys)"
    using assms by simp
  then show ?thesis
    by (metis groupByPreferred_in_filter)
qed

section \<open>Properties of the sort and of the groups\<close>

lemma findIndex_from_range: "findIndex_from i p xs = -1 \<or> i \<le> findIndex_from i p xs"
proof (induction xs arbitrary: i)
  case Nil
  show ?case by simp
next
  case (Cons x xs)
  from Cons.IH [of "i + 1"] show ?case by auto
qed

lemma findIndex_lower: "-1 \<le> findIndex p xs"
  using findIndex_from_range [of 0 p xs] by (auto simp: findIndex_def)

lemma set_insert_sorted: "set (insert_sorted cmp x ys) = insert x (set ys)"
  by (induction ys) auto

lemma sorted_insert_sorted:
  assumes "sorted (map order ys)" and "\<forall>y\<in>set ys. -1 \<le> order y" and "-1 \<le> order x"
  shows "sorted (map order (insert_sorted compare_groups x ys))"
  using assms
proof (induction ys)
  case Nil
  show ?case by simp
next
  case (Cons y ys)
  show ?case
  proof (cases "compare_groups x y < 0")
    case True
    then have "order x \<le> order y"
      using Cons.prems by (auto simp: compare_groups_def split: if_splits)
    with True Cons.prems show ?thesis by auto
  next
    case False
    then have "order y \<le> order x"
      using Cons.prems by (auto simp: compare_groups_def split: if_splits)
    moreover have "sorted (map order (insert_sorted compare_groups x ys))"
      using Cons by simp
    ultimately show ?thesis
      using False Cons.prems by (auto simp: set_insert_sorted)
  qed
qed

lemma sorted_sort_with:
  assumes "\<forall>g\<in>set gs. -1 \<le> order g"
  shows "sorted (map order (sort_with compare_groups gs))"
  using assms
proof (induction gs rule: rev_induct)
  case Nil
  show ?case by (simp add: sort_with_def)
next
  case (snoc g gs)
  then show ?case
    by (simp add: sort_with_snoc sorted_insert_sorted set_sort_with)
qed

lemma push_note_member:
  assumes "distinct (map key gs)" and "g' \<in> set (push_note k n gs)"
  shows "(g' \<in> set gs \<and> key g' \<noteq> k) \<or>
         (\<exists>g\<in>set gs. key g = k \<and> g' = g\<lparr>group_notes := group_notes g @ [n]\<rparr>)"
  using assms
proof (induction gs)
  case Nil
  then show ?case by simp
next
  case (Cons g gs)
  show ?case
  proof (cases "key g = k")
    case True
    with Cons.prems have "g' = g\<lparr>group_notes := group_notes g @ [n]\<rparr> \<or> g' \<in> set gs"
      by simp
    then show ?thesis
    proof
      assume "g' = g\<lparr>group_notes := group_notes g @ [n]\<rparr>"
      with True show ?thesis by simp
    next
      assume m: "g' \<in> set gs"
      then have "key g' \<in> set (map key gs)" by simp
      moreover from Cons.prems have "key g \<notin> set (map key gs)" by simp
      ultimately have "key g' \<noteq> k" using True by metis
      with m show ?thesis by simp
    qed
  next
    case False
    with Cons.prems have "g' = g \<or> g' \<in> set (push_note k n gs)" by simp
    then show ?thesis
    proof
      assume "g' = g"
      with False show ?thesis by simp
    next
      assume "g' \<in> set (push_note k n gs)"
      with Cons have "(g' \<in> set gs \<and> key g' \<noteq> k) \<or>
         (\<exists>g\<in>set gs. key g = k \<and> g' = g\<lparr>group_notes := group_notes g @ [n]\<rparr>)"
        by simp
      then show ?thesis by auto
    qed
  qed
qed

lemma groups_invariant_add_entry:
  assumes "groups_invariant t xs gs"
  shows "groups_invariant t (xs @ [e]) (add_entry t gs e)"
proof -
  from assms have d: "distinct (map key gs)"
    and cov: "\<And>e' k. e' \<in> set xs \<Longrightarrow> match_bracket (name e') = Some k \<Longrightarrow> k \<in> set (map key gs)"
    and ord: "\<And>g. g \<in> set gs \<Longrightarrow> order g = findIndex (instrument_found (key g)) t"
    and nts: "\<And>g. g \<in> set gs \<Longrightarrow>
      group_notes g = map note_id (filter (\<lambda>e. match_bracket (name e) = Some (key g)) xs)"
    unfolding groups_invariant_def by blast+
  show ?thesis
  proof (cases "match_bracket (name e)")
    case None
    then have "add_entry t gs e = gs" by (simp add: add_entry_def)
    with None d cov ord nts show ?thesis
      unfolding groups_invariant_def by auto
  next
    case (Some k)
    show ?thesis
    proof (cases "find (\<lambda>g. key g = k) gs")
      case None
      then have nk: "k \<notin> set (map key gs)" by (auto simp: find_None_iff)
      let ?new = "\<lparr>key = k, order = findIndex (instrument_found k) t, group_notes = [note_id e]\<rparr>"
      have eq: "add_entry t gs e = gs @ [?new]"
        using None Some by (simp add: add_entry_def)
      have none_before: "filter (\<lambda>e'. match_bracket (name e') = Some k) xs = []"
        using cov nk by (auto simp: filter_empty_conv)
      have "distinct (map key (gs @ [?new]))" using d nk by simp
      moreover have "\<forall>e'\<in>set (xs @ [e]). \<forall>k'. match_bracket (name e') = Some k' \<longrightarrow>
          k' \<in> set (map key (gs @ [?new]))"
        using cov Some by auto
      moreover have "\<forall>g\<in>set (gs @ [?new]).
        order g = findIndex (instrument_found (key g)) t \<and>
        group_notes g = map note_id (filter (\<lambda>e. match_bracket (name e) = Some (key g)) (xs @ [e]))"
      proof
        fix g assume "g \<in> set (gs @ [?new])"
        then consider "g \<in> set gs" | "g = ?new" by auto
        then show "order g = findIndex (instrument_found (key g)) t \<and>
          group_notes g = map note_id (filter (\<lambda>e. match_bracket (name e) = Some (key g)) (xs @ [e]))"
        proof cases
          case 1
          then have "key g \<noteq> k" using nk by auto
          with 1 ord nts Some show ?thesis by simp
        next
          case 2
          with none_before Some show ?thesis by simp
        qed
      qed
      ultimately show ?thesis unfolding groups_invariant_def eq by blast
    next
      case (Some g0)
      then have eq: "add_entry t gs e = push_note k (note_id e) gs"
        using \<open>match_bracket (name e) = Some k\<close> by (simp add: add_entry_def)
      have "distinct (map key (push_note k (note_id e) gs))"
        using d by (simp add: map_key_push_note)
      moreover have "\<forall>e'\<in>set (xs @ [e]). \<forall>k'. match_bracket (name e') = Some k' \<longrightarrow>
          k' \<in> set (map key (push_note k (note_id e) gs))"
      proof (intro ballI allI impI)
        fix e' k' assume a: "e' \<in> set (xs @ [e])" "match_bracket (name e') = Some k'"
        show "k' \<in> set (map key (push_note k (note_id e) gs))"
        proof (cases "e' \<in> set xs")
          case True
          with a cov show ?thesis by (simp add: map_key_push_note)
        next
          case False
          with a have "k' = k" using \<open>match_bracket (name e) = Some k\<close> by auto
          moreover from Some have "k \<in> set (map key gs)"
            by (metis (mono_tags, lifting) find_None_iff image_eqI list.set_map option.distinct(1))
          ultimately show ?thesis by (simp add: map_key_push_note)
        qed
      qed
      moreover have "\<forall>g\<in>set (push_note k (note_id e) gs).
        order g = findIndex (instrument_found (key g)) t \<and>
        group_notes g = map note_id (filter (\<lambda>e. match_bracket (name e) = Some (key g)) (xs @ [e]))"
      proof
        fix g' assume "g' \<in> set (push_note k (note_id e) gs)"
        from push_note_member [OF d this]
        show "order g' = findIndex (instrument_found (key g')) t \<and>
          group_notes g' = map note_id (filter (\<lambda>e. match_bracket (name e) = Some (key g')) (xs @ [e]))"
        proof
          assume "g' \<in> set gs \<and> key g' \<noteq> k"
          with ord nts \<open>match_bracket (name e) = Some k\<close> show ?thesis by auto
        next
          assume "\<exists>g\<in>set gs. key g = k \<and> g' = g\<lparr>group_notes := group_notes g @ [note_id e]\<rparr>"
          then obtain g where g: "g \<in> set gs" "key g = k"
            "g' = g\<lparr>group_notes := group_notes g @ [note_id e]\<rparr>" by blast
          with ord [OF g(1)] nts [OF g(1)] \<open>match_bracket (name e) = Some k\<close>
          show ?thesis by simp
        qed
      qed
      ultimately show ?thesis unfolding groups_invariant_def eq by blast
    qed
  qed
qed

lemma groups_invariant_collect_groups: "groups_invariant t xs (collect_groups t xs)"
proof (induction xs rule: rev_induct)
  case Nil
  show ?case by (simp add: groups_invariant_def collect_groups_def)
next
  case (snoc e xs)
  then show ?case by (simp add: collect_groups_snoc groups_invariant_add_entry)
qed

lemma groups_invariant_permuted:
  assumes "groups_invariant t xs gs" and "mset gs' = mset gs"
  shows "groups_invariant t xs gs'"
proof -
  from assms(2) have s: "set gs' = set gs" by (metis set_mset_mset)
  from assms(2) have "mset (map key gs') = mset (map key gs)" by simp
  then have "distinct (map key gs') = distinct (map key gs)"
    by (metis distinct_count_atmost_1 set_mset_mset count_mset)
  with assms(1) s show ?thesis unfolding groups_invariant_def by simp
qed

lemma groups_invariant_sorted_groups: "groups_invariant t xs (sorted_groups t xs)"
  unfolding sorted_groups_def
  by (rule groups_invariant_permuted [OF groups_invariant_collect_groups]) (rule mset_sort_with)

lemma sorted_sorted_groups: "sorted (map order (sorted_groups t xs))"
proof -
  have "\<forall>g\<in>set (collect_groups t xs). -1 \<le> order g"
  proof
    fix g assume "g \<in> set (collect_groups t xs)"
    with groups_invariant_collect_groups [of t xs]
    have "order g = findIndex (instrument_found (key g)) t"
      unfolding groups_invariant_def by blast
    then show "-1 \<le> order g" using findIndex_lower [of "instrument_found (key g)" t] by simp
  qed
  then show ?thesis unfolding sorted_groups_def by (rule sorted_sort_with)
qed

lemma sorted_rank_position:
  assumes "sorted (map order gs)" and "i < length gs" and "j < length gs"
    and "order (gs ! i) < order (gs ! j)"
  shows "i < j"
proof (rule ccontr)
  assume "\<not> i < j"
  then have "j \<le> i" by simp
  with assms(1,2) have "map order gs ! j \<le> map order gs ! i"
    by (simp add: sorted_iff_nth_mono del: nth_map)
  with assms show False by simp
qed

section \<open>Properties of the bracket pattern\<close>

lemma startsWith_close: "startsWith cs '']'' \<longleftrightarrow> (cs \<noteq> [] \<and> hd cs = CHR '']'')"
  by (cases cs) auto

lemma close_bracket_last:
  assumes "m \<le> k" and "startsWith (drop m cs) '']''"
    and "\<forall>i. m < i \<and> i \<le> k \<longrightarrow> \<not> startsWith (drop i cs) '']''"
  shows "close_bracket cs k = Some m"
  using assms
proof (induction k)
  case 0
  then show ?case by simp
next
  case (Suc k)
  show ?case
  proof (cases "m = Suc k")
    case True
    with Suc.prems show ?thesis by simp
  next
    case False
    with Suc.prems have "m \<le> k" by simp
    moreover from Suc.prems False have "\<not> startsWith (drop (Suc k) cs) '']''" by simp
    moreover from Suc.prems have "\<forall>i. m < i \<and> i \<le> k \<longrightarrow> \<not> startsWith (drop i cs) '']''" by simp
    ultimately show ?thesis using Suc.IH Suc.prems(2) by simp
  qed
qed

lemma not_close_after_run:
  assumes "CHR '']'' \<notin> set (takeWhile (\<lambda>c. \<not> lineTerminator c) post)"
    and "j \<le> length (takeWhile (\<lambda>c. \<not> lineTerminator c) post)"
  shows "\<not> startsWith (drop j post) '']''"
proof
  let ?run = "takeWhile (\<lambda>c. \<not> lineTerminator c) post"
  assume s: "startsWith (drop j post) '']''"
  then have j: "j < length post" and c: "post ! j = CHR '']''"
    by (auto simp: startsWith_close hd_drop_conv_nth)
  show False
  proof (cases "j < length ?run")
    case True
    then have "?run ! j = post ! j" by (rule takeWhile_nth)
    with True c have "CHR '']'' \<in> set ?run" by (metis nth_mem)
    with assms(1) show False by simp
  next
    case False
    with assms(2) have "j = length ?run" by simp
    with j have "\<not> (\<not> lineTerminator (post ! j))"
      using nth_length_takeWhile [of "\<lambda>c. \<not> lineTerminator c" post] by simp
    with c show False by (simp add: lineTerminator_def)
  qed
qed

lemma match_here_bracket:
  assumes "\<forall>c\<in>set mid. \<not> lineTerminator c"
    and "CHR '']'' \<notin> set (takeWhile (\<lambda>c. \<not> lineTerminator c) post)"
  shows "match_here (''['' @ mid @ '']'' @ post) = Some (''['' @ mid @ '']'')"
proof -
  let ?cs = "mid @ '']'' @ post"
  let ?n = "length (takeWhile (\<lambda>c. \<not> lineTerminator c) post)"
  have run: "length (takeWhile (\<lambda>c. \<not> lineTerminator c) ?cs) = length mid + 1 + ?n"
    using assms(1) by (simp add: takeWhile_append2 lineTerminator_def)
  have "close_bracket ?cs (length mid + 1 + ?n) = Some (length mid)"
  proof (rule close_bracket_last)
    show "length mid \<le> length mid + 1 + ?n" by simp
    show "startsWith (drop (length mid) ?cs) '']''" by simp
    show "\<forall>i. length mid < i \<and> i \<le> length mid + 1 + ?n \<longrightarrow> \<not> startsWith (drop i ?cs) '']''"
    proof (intro allI impI)
      fix i assume i: "length mid < i \<and> i \<le> length mid + 1 + ?n"
      then have "drop i ?cs = drop (i - length mid - 1) post" by (simp add: drop_Cons')
      moreover from i have "i - length mid - 1 \<le> ?n" by arith
      ultimately show "\<not> startsWith (drop i ?cs) '']''"
        using not_close_after_run [OF assms(2)] by simp
    qed
  qed
  with run show ?thesis by (simp add: match_here_def)
qed

lemma close_bracket_none:
  assumes "\<forall>i. i \<le> k \<longrightarrow> \<not> startsWith (drop i cs) '']''"
  shows "close_bracket cs k = None"
  using assms
proof (induction k)
  case 0
  then show ?case by simp
next
  case (Suc k)
  then have "\<not> startsWith (drop (Suc k) cs) '']''" by simp
  moreover from Suc have "close_bracket cs k = None" by simp
  ultimately show ?case by simp
qed

lemma match_here_broken:
  assumes "CHR '']'' \<notin> set (takeWhile (\<lambda>c. \<not> lineTerminator c) b)"
    and "\<exists>c\<in>set b. lineTerminator c"
  shows "match_here (''['' @ b @ rest) = None"
proof -
  let ?run = "takeWhile (\<lambda>c. \<not> lineTerminator c)"
  from assms(2) have r: "?run (b @ rest) = ?run b"
    by (auto simp: takeWhile_append1)
  have "close_bracket (b @ rest) (length (?run (b @ rest))) = None"
  proof (rule close_bracket_none, intro allI impI)
    fix i assume "i \<le> length (?run (b @ rest))"
    moreover have "CHR '']'' \<notin> set (?run (b @ rest))" using assms(1) r by simp
    ultimately show "\<not> startsWith (drop i (b @ rest)) '']''"
      by (rule not_close_after_run [rotated])
  qed
  then show ?thesis by (simp add: match_here_def)
qed

lemma match_bracket_skip:
  assumes "\<forall>a b. pre = a @ ''['' @ b \<longrightarrow>
             CHR '']'' \<notin> set (takeWhile (\<lambda>c. \<not> lineTerminator c) b) \<and> (\<exists>c\<in>set b. lineTerminator c)"
  shows "match_bracket (pre @ rest) = match_bracket rest"
  using assms
proof (induction pre)
  case Nil
  show ?case by simp
next
  case (Cons c pre)
  have tail: "\<forall>a b. pre = a @ ''['' @ b \<longrightarrow>
             CHR '']'' \<notin> set (takeWhile (\<lambda>c. \<not> lineTerminator c) b) \<and> (\<exists>c\<in>set b. lineTerminator c)"
  proof (intro allI impI)
    fix a b assume "pre = a @ ''['' @ b"
    then have "c # pre = (c # a) @ ''['' @ b" by simp
    with Cons.prems show "CHR '']'' \<notin> set (takeWhile (\<lambda>c. \<not> lineTerminator c) b) \<and> (\<exists>c\<in>set b. lineTerminator c)"
      by blast
  qed
  have "match_here (c # pre @ rest) = None"
  proof (cases "c = CHR ''[''")
    case True
    then have "c # pre = [] @ ''['' @ pre" by simp
    with Cons.prems have "CHR '']'' \<notin> set (takeWhile (\<lambda>c. \<not> lineTerminator c) pre) \<and> (\<exists>c\<in>set pre. lineTerminator c)"
      by blast
    then show ?thesis using match_here_broken [of pre rest] True by simp
  next
    case False
    then show ?thesis by (simp add: match_here_def)
  qed
  with Cons.IH [OF tail] show ?case by simp
qed

text \<open>When the pattern matches at all: an opening bracket with a closing bracket on its line.\<close>

lemma close_bracket_some:
  assumes "i \<le> k" and "startsWith (drop i cs) '']''"
  shows "close_bracket cs k \<noteq> None"
  using assms
proof (induction k)
  case 0
  then show ?case by simp
next
  case (Suc k)
  show ?case
  proof (cases "startsWith (drop (Suc k) cs) '']''")
    case True
    then show ?thesis by simp
  next
    case False
    with Suc.prems have "i \<le> k" by (cases "i = Suc k") auto
    with Suc.IH Suc.prems(2) False show ?thesis by simp
  qed
qed

lemma match_here_iff:
  "match_here s \<noteq> None \<longleftrightarrow>
     (\<exists>cs. s = ''['' @ cs \<and> CHR '']'' \<in> set (takeWhile (\<lambda>c. \<not> lineTerminator c) cs))"
proof (cases s)
  case Nil
  then show ?thesis by (simp add: match_here_def)
next
  case (Cons c cs)
  let ?run = "takeWhile (\<lambda>c. \<not> lineTerminator c) cs"
  show ?thesis
  proof (cases "c = CHR ''[''")
    case False
    with Cons show ?thesis by (simp add: match_here_def)
  next
    case True
    have "close_bracket cs (length ?run) \<noteq> None \<longleftrightarrow> CHR '']'' \<in> set ?run"
    proof
      assume a: "close_bracket cs (length ?run) \<noteq> None"
      show "CHR '']'' \<in> set ?run"
      proof (rule ccontr)
        assume n: "CHR '']'' \<notin> set ?run"
        have "close_bracket cs (length ?run) = None"
        proof (rule close_bracket_none, intro allI impI)
          fix i assume "i \<le> length ?run"
          with n show "\<not> startsWith (drop i cs) '']''" by (rule not_close_after_run)
        qed
        with a show False by simp
      qed
    next
      assume "CHR '']'' \<in> set ?run"
      then obtain i where i: "i < length ?run" "?run ! i = CHR '']''"
        by (auto simp: in_set_conv_nth)
      then have "cs ! i = CHR '']''" by (simp add: takeWhile_nth)
      moreover have "i < length cs"
        using i(1) length_takeWhile_le [of "\<lambda>c. \<not> lineTerminator c" cs] by simp
      ultimately have "startsWith (drop i cs) '']''"
        by (simp add: startsWith_close hd_drop_conv_nth)
      with i(1) show "close_bracket cs (length ?run) \<noteq> None"
        using close_bracket_some [of i "length ?run" cs] by simp
    qed
    with Cons True show ?thesis by (auto simp: match_here_def split: option.splits)
  qed
qed

lemma match_bracket_None_iff:
  "match_bracket s = None \<longleftrightarrow> (\<forall>a r. s = a @ r \<longrightarrow> match_here r = None)"
proof (induction s)
  case Nil
  show ?case by (simp add: match_here_def)
next
  case (Cons c cs)
  show ?case
  proof
    assume a: "match_bracket (c # cs) = None"
    then have h: "match_here (c # cs) = None" and t: "match_bracket cs = None"
      by (auto split: option.splits)
    show "\<forall>a r. c # cs = a @ r \<longrightarrow> match_here r = None"
    proof (intro allI impI)
      fix a r assume d: "c # cs = a @ r"
      show "match_here r = None"
      proof (cases a)
        case Nil
        with d h show ?thesis by simp
      next
        case (Cons a0 as)
        with d have "cs = as @ r" by simp
        with t Cons.IH show ?thesis by blast
      qed
    qed
  next
    assume a: "\<forall>a r. c # cs = a @ r \<longrightarrow> match_here r = None"
    then have "match_here (c # cs) = None" by (metis append_Nil)
    moreover have "\<forall>a r. cs = a @ r \<longrightarrow> match_here r = None"
      using a by (metis append_Cons)
    then have "match_bracket cs = None" using Cons.IH by blast
    ultimately show "match_bracket (c # cs) = None" by simp
  qed
qed



lemma bracket_on_line_iff:
  "(\<exists>a b c. s = a @ ''['' @ b @ '']'' @ c \<and> (\<forall>x\<in>set b. \<not> lineTerminator x))
     \<longleftrightarrow> match_bracket s \<noteq> None"
proof
  assume "\<exists>a b c. s = a @ ''['' @ b @ '']'' @ c \<and> (\<forall>x\<in>set b. \<not> lineTerminator x)"
  then obtain a b c where s: "s = a @ ''['' @ b @ '']'' @ c"
    and b: "\<forall>x\<in>set b. \<not> lineTerminator x" by blast
  have "takeWhile (\<lambda>c. \<not> lineTerminator c) (b @ '']'' @ c) =
        b @ takeWhile (\<lambda>c. \<not> lineTerminator c) ('']'' @ c)"
    using b by (simp add: takeWhile_append2)
  then have "CHR '']'' \<in> set (takeWhile (\<lambda>c. \<not> lineTerminator c) (b @ '']'' @ c))"
    by (simp add: lineTerminator_def)
  then have h: "match_here (''['' @ b @ '']'' @ c) \<noteq> None"
    unfolding match_here_iff by blast
  show "match_bracket s \<noteq> None"
  proof
    assume "match_bracket s = None"
    then have "\<forall>a r. s = a @ r \<longrightarrow> match_here r = None"
      by (simp only: match_bracket_None_iff)
    with s have "match_here (''['' @ b @ '']'' @ c) = None" by blast
    with h show False by simp
  qed
next
  assume "match_bracket s \<noteq> None"
  then have "\<not> (\<forall>a r. s = a @ r \<longrightarrow> match_here r = None)"
    by (simp only: match_bracket_None_iff not_False_eq_True)
  then obtain a r where ar: "s = a @ r" and "match_here r \<noteq> None" by blast
  then obtain cs where r: "r = ''['' @ cs"
    and m: "CHR '']'' \<in> set (takeWhile (\<lambda>c. \<not> lineTerminator c) cs)"
    unfolding match_here_iff by blast
  define run where "run = takeWhile (\<lambda>c. \<not> lineTerminator c) cs"
  define d where "d = dropWhile (\<lambda>c. \<not> lineTerminator c) cs"
  have split: "cs = run @ d" unfolding run_def d_def by simp
  from m obtain b t where bt: "run = b @ '']'' @ t"
    unfolding run_def [symmetric] by (metis split_list append_Cons append_Nil)
  have nb: "\<forall>x\<in>set b. \<not> lineTerminator x"
  proof
    fix x assume "x \<in> set b"
    with bt have "x \<in> set run" by simp
    then show "\<not> lineTerminator x" unfolding run_def by (rule set_takeWhileD [THEN conjunct2])
  qed
  have "s = a @ ''['' @ b @ '']'' @ (t @ d)"
    unfolding ar r split bt by simp
  with nb show "\<exists>a b c. s = a @ ''['' @ b @ '']'' @ c \<and> (\<forall>x\<in>set b. \<not> lineTerminator x)"
    by blast
qed

section \<open>The claims\<close>

text \<open>
  C1. As stated the claim fails: the pattern's \<^verbatim>\<open>.*\<close> is greedy, so for the name
  \<open>Tom [Rack] [Hi]\<close> the key is \<open>[Rack] [Hi]\<close>, not the first pair \<open>[Rack]\<close>.
\<close>

theorem first_pair_key_refuted:
  "first_pair_key ''Tom [Rack] [Hi]'' = Some ''[Rack]''
   \<and> match_bracket ''Tom [Rack] [Hi]'' = Some ''[Rack] [Hi]''
   \<and> match_bracket ''Tom [Rack] [Hi]'' \<noteq> first_pair_key ''Tom [Rack] [Hi]''"
  by code_simp

text \<open>
  C1, amended. The key starts at the first opening bracket that is followed by a closing
  bracket before any line terminator, and runs up to and including the last closing
  bracket before the next line terminator. Here \<open>pre\<close> is the text before that opening
  bracket (every opening bracket in it meets a line terminator before a closing bracket),
  \<open>mid\<close> the text between the two brackets and \<open>post\<close> the rest of the name.
\<close>

theorem bracket_key_is_first_open_to_last_close:
  assumes "\<forall>a b. pre = a @ ''['' @ b \<longrightarrow>
             CHR '']'' \<notin> set (takeWhile (\<lambda>c. \<not> lineTerminator c) b) \<and> (\<exists>c\<in>set b. lineTerminator c)"
    and "\<forall>c\<in>set mid. \<not> lineTerminator c"
    and "CHR '']'' \<notin> set (takeWhile (\<lambda>c. \<not> lineTerminator c) post)"
  shows "match_bracket (pre @ ''['' @ mid @ '']'' @ post) = Some (''['' @ mid @ '']'')"
proof -
  have "match_bracket (pre @ ''['' @ mid @ '']'' @ post) = match_bracket (''['' @ mid @ '']'' @ post)"
    using assms(1) by (rule match_bracket_skip)
  also have "\<dots> = Some (''['' @ mid @ '']'')"
    using match_here_bracket [OF assms(2,3)] by simp
  finally show ?thesis .
qed

theorem bracket_key_is_first_open_to_last_close_witness:
  "match_bracket ''[x\<newline>Tom [Rack] [Hi] 2'' = Some ''[Rack] [Hi]''"
proof -
  have a: "\<forall>a b. ''[x\<newline>Tom '' = a @ ''['' @ b \<longrightarrow>
             CHR '']'' \<notin> set (takeWhile (\<lambda>c. \<not> lineTerminator c) b) \<and> (\<exists>c\<in>set b. lineTerminator c)"
  proof (intro allI impI)
    fix a b assume d: "''[x\<newline>Tom '' = a @ ''['' @ b"
    have "b = ''x\<newline>Tom ''"
    proof (cases a)
      case Nil
      with d show ?thesis by simp
    next
      case (Cons a0 as)
      with d have "''x\<newline>Tom '' = as @ ''['' @ b" by simp
      then have "CHR ''['' \<in> set ''x\<newline>Tom ''" by (metis append_Cons in_set_conv_decomp)
      then show ?thesis by simp
    qed
    then show "CHR '']'' \<notin> set (takeWhile (\<lambda>c. \<not> lineTerminator c) b) \<and> (\<exists>c\<in>set b. lineTerminator c)"
      by (simp add: lineTerminator_def)
  qed
  have b: "\<forall>c\<in>set ''Rack] [Hi''. \<not> lineTerminator c" by (simp add: lineTerminator_def)
  have c: "CHR '']'' \<notin> set (takeWhile (\<lambda>c. \<not> lineTerminator c) '' 2'')"
    by (simp add: lineTerminator_def)
  from bracket_key_is_first_open_to_last_close [OF a b c] show ?thesis by simp
qed

text \<open>
  C2. The example of the specification: entries \<open>1 Kick [Kick]\<close>, \<open>2 Hat [Hat]\<close>,
  \<open>3 Unknown [Foo]\<close> in inferred mode with the literal table. As stated (NO 3, NO 2, NO 1)
  the claim fails: in the reversed table \<open>kick\<close> has index 29 and \<open>hat\<close> index 30, so the
  kick group comes before the hat group.
\<close>

theorem example_order_refuted:
  "groupByPreferred
     [\<lparr>note_id = ''1'', name = ''Kick [Kick]''\<rparr>,
      \<lparr>note_id = ''2'', name = ''Hat [Hat]''\<rparr>,
      \<lparr>note_id = ''3'', name = ''Unknown [Foo]''\<rparr>]
   \<noteq> [''NO 3'', ''NO 2'', ''NO 1'']"
  by code_simp

text \<open>
  C2, amended. The resolver returns NO 3 (group \<open>[Foo]\<close>, rank -1), then NO 1 (group
  \<open>[Kick]\<close>, rank 29), then NO 2 (group \<open>[Hat]\<close>, rank 30).
\<close>

theorem example_order:
  "groupByPreferred
     [\<lparr>note_id = ''1'', name = ''Kick [Kick]''\<rparr>,
      \<lparr>note_id = ''2'', name = ''Hat [Hat]''\<rparr>,
      \<lparr>note_id = ''3'', name = ''Unknown [Foo]''\<rparr>]
   = [''NO 3'', ''NO 1'', ''NO 2'']
   \<and> map (\<lambda>g. (key g, order g))
       (sorted_groups PREFERRED_ORDERS
         [\<lparr>note_id = ''1'', name = ''Kick [Kick]''\<rparr>,
          \<lparr>note_id = ''2'', name = ''Hat [Hat]''\<rparr>,
          \<lparr>note_id = ''3'', name = ''Unknown [Foo]''\<rparr>])
     = [(''[Foo]'', -1), (''[Kick]'', 29), (''[Hat]'', 30)]"
  by code_simp

text \<open>
  C3. In inferred mode the output is the concatenation of the groups' blocks in the sorted
  order; the groups have distinct keys; each group has the rank of its key in the table
  and holds the notes of the entries of that key in the order of the input; a group of
  rank at least 0 stands before every group of greater rank, and a group of rank -1 stands
  before every group of rank at least 0.
\<close>

theorem rank_monotone:
  fixes entries :: "NoteAndName list"
  defines "gs \<equiv> sorted_groups PREFERRED_ORDERS entries"
  shows "groupByPreferred entries = concat (map (\<lambda>g. map no_line (group_notes g)) gs)
    \<and> distinct (map key gs)
    \<and> (\<forall>g\<in>set gs.
         order g = findIndex (instrument_found (key g)) PREFERRED_ORDERS
         \<and> group_notes g =
             map note_id (filter (\<lambda>e. match_bracket (name e) = Some (key g)) entries))
    \<and> (\<forall>i j. i < length gs \<and> j < length gs
               \<and> 0 \<le> order (gs ! i) \<and> order (gs ! i) < order (gs ! j) \<longrightarrow> i < j)
    \<and> (\<forall>i j. i < length gs \<and> j < length gs
               \<and> order (gs ! i) = -1 \<and> 0 \<le> order (gs ! j) \<longrightarrow> i < j)"
proof (intro conjI)
  show "groupByPreferred entries = concat (map (\<lambda>g. map no_line (group_notes g)) gs)"
    by (simp add: gs_def groupByPreferred_def groupByPreferred_in_def)
  have g: "groups_invariant PREFERRED_ORDERS entries gs"
    unfolding gs_def by (rule groups_invariant_sorted_groups)
  then show "distinct (map key gs)" unfolding groups_invariant_def by blast
  from g show "\<forall>g\<in>set gs.
         order g = findIndex (instrument_found (key g)) PREFERRED_ORDERS
         \<and> group_notes g =
             map note_id (filter (\<lambda>e. match_bracket (name e) = Some (key g)) entries)"
    unfolding groups_invariant_def by blast
  have s: "sorted (map order gs)" unfolding gs_def by (rule sorted_sorted_groups)
  show "\<forall>i j. i < length gs \<and> j < length gs
               \<and> 0 \<le> order (gs ! i) \<and> order (gs ! i) < order (gs ! j) \<longrightarrow> i < j"
    using sorted_rank_position [OF s] by blast
  show "\<forall>i j. i < length gs \<and> j < length gs
               \<and> order (gs ! i) = -1 \<and> 0 \<le> order (gs ! j) \<longrightarrow> i < j"
  proof (intro allI impI)
    fix i j
    assume a: "i < length gs \<and> j < length gs \<and> order (gs ! i) = -1 \<and> 0 \<le> order (gs ! j)"
    then have "order (gs ! i) < order (gs ! j)" by simp
    with a show "i < j" using sorted_rank_position [OF s] by blast
  qed
qed

theorem rank_monotone_witness:
  "map (\<lambda>g. (key g, order g, group_notes g))
     (sorted_groups PREFERRED_ORDERS
       [\<lparr>note_id = ''1'', name = ''Kick [Kick]''\<rparr>,
        \<lparr>note_id = ''2'', name = ''Hat [Hat]''\<rparr>,
        \<lparr>note_id = ''3'', name = ''Unknown [Foo]''\<rparr>,
        \<lparr>note_id = ''4'', name = ''Kick B [Kick]''\<rparr>])
     = [(''[Foo]'', -1, [''3'']), (''[Kick]'', 29, [''1'', ''4'']), (''[Hat]'', 30, [''2''])]
   \<and> groupByPreferred
       [\<lparr>note_id = ''1'', name = ''Kick [Kick]''\<rparr>,
        \<lparr>note_id = ''2'', name = ''Hat [Hat]''\<rparr>,
        \<lparr>note_id = ''3'', name = ''Unknown [Foo]''\<rparr>,
        \<lparr>note_id = ''4'', name = ''Kick B [Kick]''\<rparr>]
     = [''NO 3'', ''NO 1'', ''NO 4'', ''NO 2'']"
proof -
  let ?ex = "[\<lparr>note_id = ''1'', name = ''Kick [Kick]''\<rparr>,
        \<lparr>note_id = ''2'', name = ''Hat [Hat]''\<rparr>,
        \<lparr>note_id = ''3'', name = ''Unknown [Foo]''\<rparr>,
        \<lparr>note_id = ''4'', name = ''Kick B [Kick]''\<rparr>]"
  let ?gs = "sorted_groups PREFERRED_ORDERS ?ex"
  have gs: "?gs =
     [\<lparr>key = ''[Foo]'', order = -1, group_notes = [''3'']\<rparr>,
      \<lparr>key = ''[Kick]'', order = 29, group_notes = [''1'', ''4'']\<rparr>,
      \<lparr>key = ''[Hat]'', order = 30, group_notes = [''2'']\<rparr>]"
    by code_simp
  have ranked: "1 < length ?gs \<and> 2 < length ?gs \<and> 0 \<le> order (?gs ! 1) \<and> order (?gs ! 1) < order (?gs ! 2)"
    unfolding gs by simp
  have unranked: "0 < length ?gs \<and> 1 < length ?gs \<and> order (?gs ! 0) = -1 \<and> 0 \<le> order (?gs ! 1)"
    unfolding gs by simp
  from rank_monotone [of ?ex]
  have out: "groupByPreferred ?ex = concat (map (\<lambda>g. map no_line (group_notes g)) ?gs)"
    and pos: "\<forall>i j. i < length ?gs \<and> j < length ?gs
               \<and> 0 \<le> order (?gs ! i) \<and> order (?gs ! i) < order (?gs ! j) \<longrightarrow> i < j"
    and neg: "\<forall>i j. i < length ?gs \<and> j < length ?gs
               \<and> order (?gs ! i) = -1 \<and> 0 \<le> order (?gs ! j) \<longrightarrow> i < j"
    by blast+
  from pos ranked have "(1::nat) < 2" by blast
  from neg unranked have "(0::nat) < 1" by blast
  have "groupByPreferred ?ex = [''NO 3'', ''NO 1'', ''NO 4'', ''NO 2'']"
    unfolding out gs by (simp add: no_line_def)
  with gs show ?thesis by simp
qed

text \<open>
  C4. A table entry that contains a digit matches a group key only if the first run of
  digits of the key is the first run of digits of the entry, compared as strings: the key
  \<open>[Crash 2]\<close> does not match \<open>crash 1\<close>, and \<open>[Crash 02]\<close> does not match \<open>crash 2\<close>.
\<close>

theorem numbered_token_needs_equal_digits:
  "((\<exists>c\<in>set token. is_digit c) \<and> instrument_found curGroupKey token
      \<longrightarrow> first_digits curGroupKey = first_digits token \<and> first_digits token \<noteq> None)
   \<and> \<not> instrument_found ''[Crash 2]'' ''crash 1''
   \<and> \<not> instrument_found ''[Crash 02]'' ''crash 2''"
proof (intro conjI impI)
  assume a: "(\<exists>c\<in>set token. is_digit c) \<and> instrument_found curGroupKey token"
  then have "length (toLowerCase (strip_digits token)) \<noteq> length token"
    using length_strip_digits_less [of token] by (simp add: length_toLowerCase)
  with a show "first_digits curGroupKey = first_digits token"
    by (auto simp: instrument_found_def Let_def split: if_splits)
  from a obtain c where "c \<in> set token" "is_digit c" by blast
  then have "dropWhile (\<lambda>c. \<not> is_digit c) token \<noteq> []" by auto
  then show "first_digits token \<noteq> None"
    by (auto simp: first_digits_def split: list.splits)
next
  show "\<not> instrument_found ''[Crash 2]'' ''crash 1''" by code_simp
  show "\<not> instrument_found ''[Crash 02]'' ''crash 2''" by code_simp
qed

theorem numbered_token_needs_equal_digits_witness:
  "(\<exists>c\<in>set ''crash 2''. is_digit c) \<and> instrument_found ''[Crash 2]'' ''crash 2''
   \<and> first_digits ''[Crash 2]'' = Some ''2'' \<and> first_digits ''crash 2'' = Some ''2''"
proof -
  have d: "\<exists>c\<in>set ''crash 2''. is_digit c" by (simp add: is_digit_def)
  have f: "instrument_found ''[Crash 2]'' ''crash 2''" by code_simp
  have k: "first_digits ''[Crash 2]'' = Some ''2''" by code_simp
  from numbered_token_needs_equal_digits [of "''crash 2''" "''[Crash 2]''"] d f
  have "first_digits ''[Crash 2]'' = first_digits ''crash 2''" by blast
  with d f k show ?thesis by simp
qed

text \<open>
  C5. A table entry without digits matches every group key whose lower-cased text contains
  the entry's lower-cased base name, whatever digits the key holds.
\<close>

theorem bare_token_matches:
  assumes "\<forall>c\<in>set token. \<not> is_digit c"
    and "\<exists>a b. toLowerCase curGroupKey = a @ toLowerCase (strip_digits token) @ b"
  shows "instrument_found curGroupKey token"
  using assms
  by (simp add: instrument_found_def Let_def includes_str_iff length_toLowerCase strip_digits_id)

theorem bare_token_matches_witness:
  "strip_digits ''hat'' = ''hat''
   \<and> toLowerCase ''[Hi-Hat 12]'' = ''[hi-'' @ toLowerCase (strip_digits ''hat'') @ '' 12]''
   \<and> instrument_found ''[Hi-Hat 12]'' ''hat''"
proof -
  have d: "\<forall>c\<in>set ''hat''. \<not> is_digit c" by (simp add: is_digit_def)
  have s: "toLowerCase ''[Hi-Hat 12]'' = ''[hi-'' @ toLowerCase (strip_digits ''hat'') @ '' 12]''"
    by code_simp
  then have "\<exists>a b. toLowerCase ''[Hi-Hat 12]'' = a @ toLowerCase (strip_digits ''hat'') @ b"
    by blast
  from bare_token_matches [OF d this] s strip_digits_id [OF d] show ?thesis by blast
qed

text \<open>
  C6. An entry whose name has no bracketed substring adds nothing to the grouped output of
  inferred mode: the resolver returns what it returns without the entry. The entry keeps
  its place in the flat block of the payload, which lists every extracted entry in
  extraction order.
\<close>

theorem unbracketed_entry_only_in_flat_block:
  assumes "match_bracket (name e) = None"
    and "notesAndNames drumMap = xs @ e # ys"
  shows "groupByPreferred (xs @ e # ys) = groupByPreferred (xs @ ys)
    \<and> convertDRMFileToText True drumMap =
        Inr (''# '' @ to_string (headerName drumMap) @ ''\<newline>'' @
             join ''\<newline>''
               (map (\<lambda>e. note_id e @ '' '' @ name e) xs @
                (note_id e @ '' '' @ name e) # map (\<lambda>e. note_id e @ '' '' @ name e) ys) @
             ''\<newline># Grouped order\<newline>'' @
             join ''\<newline>'' (groupByPreferred (xs @ ys)) @ ''\<newline>'')"
  using assms
  by (simp add: groupByPreferred_def groupByPreferred_in_drop convertDRMFileToText_def
      convertDRMFileToText_in_def Let_def orderItems_in_def payload_def)

theorem unbracketed_entry_only_in_flat_block_witness:
  "match_bracket ''Kick'' = None
   \<and> convertDRMFileToText True
     (Element ''DrumMap'' []
       [Element ''string'' [(''name'', ''Name''), (''value'', ''Kit'')] [],
        Element ''list'' [(''name'', ''Map''), (''type'', ''list'')]
          [Element ''item'' []
             [Element ''int'' [(''name'', ''INote''), (''value'', ''1'')] [],
              Element ''string'' [(''name'', ''Name''), (''value'', ''Hat [Hat]'')] []],
           Element ''item'' []
             [Element ''int'' [(''name'', ''INote''), (''value'', ''2'')] [],
              Element ''string'' [(''name'', ''Name''), (''value'', ''Kick'')] []],
           Element ''item'' []
             [Element ''int'' [(''name'', ''INote''), (''value'', ''3'')] [],
              Element ''string'' [(''name'', ''Name''), (''value'', ''Snare [Snare]'')] []]]])
     = Inr ''# Kit\<newline>1 Hat [Hat]\<newline>2 Kick\<newline>3 Snare [Snare]\<newline># Grouped order\<newline>NO 3\<newline>NO 1\<newline>''"
proof -
  let ?d = "Element ''DrumMap'' []
       [Element ''string'' [(''name'', ''Name''), (''value'', ''Kit'')] [],
        Element ''list'' [(''name'', ''Map''), (''type'', ''list'')]
          [Element ''item'' []
             [Element ''int'' [(''name'', ''INote''), (''value'', ''1'')] [],
              Element ''string'' [(''name'', ''Name''), (''value'', ''Hat [Hat]'')] []],
           Element ''item'' []
             [Element ''int'' [(''name'', ''INote''), (''value'', ''2'')] [],
              Element ''string'' [(''name'', ''Name''), (''value'', ''Kick'')] []],
           Element ''item'' []
             [Element ''int'' [(''name'', ''INote''), (''value'', ''3'')] [],
              Element ''string'' [(''name'', ''Name''), (''value'', ''Snare [Snare]'')] []]]]"
  let ?e = "\<lparr>note_id = ''2'', name = ''Kick''\<rparr>"
  have n: "match_bracket (name ?e) = None" by code_simp
  have x: "notesAndNames ?d =
     [\<lparr>note_id = ''1'', name = ''Hat [Hat]''\<rparr>] @ ?e # [\<lparr>note_id = ''3'', name = ''Snare [Snare]''\<rparr>]"
    by code_simp
  have h: "headerName ?d = Str ''Kit''" by code_simp
  have g: "groupByPreferred ([\<lparr>note_id = ''1'', name = ''Hat [Hat]''\<rparr>] @ [\<lparr>note_id = ''3'', name = ''Snare [Snare]''\<rparr>])
     = [''NO 3'', ''NO 1'']" by code_simp
  have m: "match_bracket ''Kick'' = None" by code_simp
  from unbracketed_entry_only_in_flat_block [OF n x] h g m show ?thesis by simp
qed

text \<open>
  C7. In explicit mode the resolver returns the values of the \<^verbatim>\<open>Order\<close> list that are the
  note of some entry, in document order, each behind the marker \<open>NO\<close>, whatever the
  preference table is. With the order 2, 1 and entries noted 1 and 2 the output is NO 2,
  NO 1.
\<close>

theorem explicit_order_replayed:
  "orderItems_in table False drumMap =
     map no_line
       (filter (\<lambda>v. v \<in> set (map note_id (notesAndNames drumMap)))
          (List.map_filter (\<lambda>x. x) (explicitOrder drumMap)))
   \<and> orderItems_in table False
       (Element ''DrumMap'' []
         [Element ''list'' [(''name'', ''Map''), (''type'', ''list'')]
            [Element ''item'' []
               [Element ''int'' [(''name'', ''INote''), (''value'', ''1'')] [],
                Element ''string'' [(''name'', ''Name''), (''value'', ''Kick [Kick]'')] []],
             Element ''item'' []
               [Element ''int'' [(''name'', ''INote''), (''value'', ''2'')] [],
                Element ''string'' [(''name'', ''Name''), (''value'', ''Hat [Hat]'')] []]],
          Element ''list'' [(''name'', ''Order''), (''type'', ''int'')]
            [Element ''item'' [(''value'', ''2'')] [], Element ''item'' [(''value'', ''1'')] []]])
     = [''NO 2'', ''NO 1'']"
proof
  show g: "orderItems_in table False drumMap =
     map no_line
       (filter (\<lambda>v. v \<in> set (map note_id (notesAndNames drumMap)))
          (List.map_filter (\<lambda>x. x) (explicitOrder drumMap)))" for drumMap
    by (simp add: orderItems_in_def explicit_items)
  show "orderItems_in table False
       (Element ''DrumMap'' []
         [Element ''list'' [(''name'', ''Map''), (''type'', ''list'')]
            [Element ''item'' []
               [Element ''int'' [(''name'', ''INote''), (''value'', ''1'')] [],
                Element ''string'' [(''name'', ''Name''), (''value'', ''Kick [Kick]'')] []],
             Element ''item'' []
               [Element ''int'' [(''name'', ''INote''), (''value'', ''2'')] [],
                Element ''string'' [(''name'', ''Name''), (''value'', ''Hat [Hat]'')] []]],
          Element ''list'' [(''name'', ''Order''), (''type'', ''int'')]
            [Element ''item'' [(''value'', ''2'')] [], Element ''item'' [(''value'', ''1'')] []]])
     = [''NO 2'', ''NO 1'']"
    unfolding g by code_simp
qed

text \<open>
  C8. In explicit mode the conversion returns the payload exactly when the filtered order
  list is as long as the list of entries, and fails with the assertion otherwise (as it
  does for two entries and the order list 2). In inferred mode it always returns the
  payload: no length is compared.
\<close>

theorem explicit_length_assertion:
  "convertDRMFileToText False drumMap =
     (if length (filter (\<lambda>v. v \<in> set (map note_id (notesAndNames drumMap)))
                   (List.map_filter (\<lambda>x. x) (explicitOrder drumMap)))
         = length (notesAndNames drumMap)
      then Inr (payload (headerName drumMap) (notesAndNames drumMap)
                  (orderItems_in PREFERRED_ORDERS False drumMap))
      else Inl AssertionError)
   \<and> convertDRMFileToText True drumMap =
       Inr (payload (headerName drumMap) (notesAndNames drumMap)
              (groupByPreferred (notesAndNames drumMap)))
   \<and> convertDRMFileToText False
       (Element ''DrumMap'' []
         [Element ''list'' [(''name'', ''Map''), (''type'', ''list'')]
            [Element ''item'' []
               [Element ''int'' [(''name'', ''INote''), (''value'', ''1'')] [],
                Element ''string'' [(''name'', ''Name''), (''value'', ''Kick [Kick]'')] []],
             Element ''item'' []
               [Element ''int'' [(''name'', ''INote''), (''value'', ''2'')] [],
                Element ''string'' [(''name'', ''Name''), (''value'', ''Hat [Hat]'')] []]],
          Element ''list'' [(''name'', ''Order''), (''type'', ''int'')]
            [Element ''item'' [(''value'', ''2'')] []]])
     = Inl AssertionError"
proof (intro conjI)
  show "convertDRMFileToText False
       (Element ''DrumMap'' []
         [Element ''list'' [(''name'', ''Map''), (''type'', ''list'')]
            [Element ''item'' []
               [Element ''int'' [(''name'', ''INote''), (''value'', ''1'')] [],
                Element ''string'' [(''name'', ''Name''), (''value'', ''Kick [Kick]'')] []],
             Element ''item'' []
               [Element ''int'' [(''name'', ''INote''), (''value'', ''2'')] [],
                Element ''string'' [(''name'', ''Name''), (''value'', ''Hat [Hat]'')] []]],
          Element ''list'' [(''name'', ''Order''), (''type'', ''int'')]
            [Element ''item'' [(''value'', ''2'')] []]])
     = Inl AssertionError"
    by code_simp
qed (simp_all add: convertDRMFileToText_def convertDRMFileToText_in_def Let_def
      orderItems_in_def explicit_items groupByPreferred_def)

text \<open>
  C9. A document without a top-level \<^verbatim>\<open>string\<close> element: the header is \<^verbatim>\<open>undefined\<close>, no
  error is raised, and the template literal prints the word, so the first line of the
  payload is \<open># undefined\<close> and not \<open># \<close> followed by nothing.
\<close>

theorem absent_header_prints_undefined:
  "headerName
     (Element ''DrumMap'' []
       [Element ''list'' [(''name'', ''Map''), (''type'', ''list'')]
          [Element ''item'' []
             [Element ''int'' [(''name'', ''INote''), (''value'', ''36'')] [],
              Element ''string'' [(''name'', ''Name''), (''value'', ''Kick [Kick]'')] []]],
        Element ''list'' [(''name'', ''Order''), (''type'', ''int'')]
          [Element ''item'' [(''value'', ''36'')] []]]) = Undefined
   \<and> convertDRMFileToText False
     (Element ''DrumMap'' []
       [Element ''list'' [(''name'', ''Map''), (''type'', ''list'')]
          [Element ''item'' []
             [Element ''int'' [(''name'', ''INote''), (''value'', ''36'')] [],
              Element ''string'' [(''name'', ''Name''), (''value'', ''Kick [Kick]'')] []]],
        Element ''list'' [(''name'', ''Order''), (''type'', ''int'')]
          [Element ''item'' [(''value'', ''36'')] []]])
     = Inr ''# undefined\<newline>36 Kick [Kick]\<newline># Grouped order\<newline>NO 36\<newline>''
   \<and> first_line ''# undefined\<newline>36 Kick [Kick]\<newline># Grouped order\<newline>NO 36\<newline>'' = ''# undefined''"
  by code_simp

text \<open>
  C10. As stated the claim fails: the name \<open>x [Hat\<close>, line feed, \<open>]\<close> contains an opening
  bracket followed later by a closing bracket, but the pattern's \<^verbatim>\<open>.\<close> does not cross the
  line feed, so the entry is in no group and the output has no line for it.
\<close>

theorem every_bracket_pair_refuted:
  "''x [Hat\<newline>]'' = ''x '' @ ''['' @ ''Hat\<newline>'' @ '']'' @ []
   \<and> first_pair_key ''x [Hat\<newline>]'' = Some ''[Hat\<newline>]''
   \<and> filter (\<lambda>e. first_pair_key (name e) \<noteq> None) [\<lparr>note_id = ''1'', name = ''x [Hat\<newline>]''\<rparr>]
       = [\<lparr>note_id = ''1'', name = ''x [Hat\<newline>]''\<rparr>]
   \<and> groupByPreferred [\<lparr>note_id = ''1'', name = ''x [Hat\<newline>]''\<rparr>] = []"
  by code_simp

text \<open>
  C10, amended. In inferred mode the output holds one line \<open>NO note\<close> for each entry whose
  name contains an opening bracket followed, before any line terminator, by a closing
  bracket, once per occurrence of the entry: as multisets the two agree, and so do the
  lengths.
\<close>

theorem grouping_keeps_every_bracketed_entry:
  "mset (groupByPreferred entries) =
     mset (map (\<lambda>e. ''NO '' @ note_id e)
       (filter (\<lambda>e. \<exists>a b c. name e = a @ ''['' @ b @ '']'' @ c \<and> (\<forall>x\<in>set b. \<not> lineTerminator x))
          entries))
   \<and> length (groupByPreferred entries) =
       length (filter (\<lambda>e. \<exists>a b c. name e = a @ ''['' @ b @ '']'' @ c
                                    \<and> (\<forall>x\<in>set b. \<not> lineTerminator x)) entries)"
proof
  have f: "filter (\<lambda>e. \<exists>a b c. name e = a @ ''['' @ b @ '']'' @ c \<and> (\<forall>x\<in>set b. \<not> lineTerminator x)) entries
     = filter (\<lambda>e. match_bracket (name e) \<noteq> None) entries"
    by (simp only: bracket_on_line_iff)
  have n: "(\<lambda>e. ''NO '' @ note_id e) = (\<lambda>e. no_line (note_id e))"
    by (simp add: no_line_def)
  show m: "mset (groupByPreferred entries) =
     mset (map (\<lambda>e. ''NO '' @ note_id e)
       (filter (\<lambda>e. \<exists>a b c. name e = a @ ''['' @ b @ '']'' @ c \<and> (\<forall>x\<in>set b. \<not> lineTerminator x))
          entries))"
    unfolding f n by (simp only: groupByPreferred_def mset_groupByPreferred_in)
  from mset_eq_length [OF m]
  show "length (groupByPreferred entries) =
       length (filter (\<lambda>e. \<exists>a b c. name e = a @ ''['' @ b @ '']'' @ c
                                    \<and> (\<forall>x\<in>set b. \<not> lineTerminator x)) entries)"
    by (simp only: length_map)
qed

theorem grouping_keeps_every_bracketed_entry_witness:
  "mset (groupByPreferred
     [\<lparr>note_id = ''1'', name = ''Kick [Kick]''\<rparr>,
      \<lparr>note_id = ''2'', name = ''x [Hat\<newline>]''\<rparr>,
      \<lparr>note_id = ''3'', name = ''Plain''\<rparr>,
      \<lparr>note_id = ''1'', name = ''Kick [Kick]''\<rparr>,
      \<lparr>note_id = ''4'', name = ''Hat [Hat]''\<rparr>])
     = mset [''NO 1'', ''NO 1'', ''NO 4'']
   \<and> length (groupByPreferred
     [\<lparr>note_id = ''1'', name = ''Kick [Kick]''\<rparr>,
      \<lparr>note_id = ''2'', name = ''x [Hat\<newline>]''\<rparr>,
      \<lparr>note_id = ''3'', name = ''Plain''\<rparr>,
      \<lparr>note_id = ''1'', name = ''Kick [Kick]''\<rparr>,
      \<lparr>note_id = ''4'', name = ''Hat [Hat]''\<rparr>]) = 3"
proof -
  let ?ex = "[\<lparr>note_id = ''1'', name = ''Kick [Kick]''\<rparr>,
      \<lparr>note_id = ''2'', name = ''x [Hat\<newline>]''\<rparr>,
      \<lparr>note_id = ''3'', name = ''Plain''\<rparr>,
      \<lparr>note_id = ''1'', name = ''Kick [Kick]''\<rparr>,
      \<lparr>note_id = ''4'', name = ''Hat [Hat]''\<rparr>]"
  have m: "filter (\<lambda>e. match_bracket (name e) \<noteq> None) ?ex =
     [\<lparr>note_id = ''1'', name = ''Kick [Kick]''\<rparr>,
      \<lparr>note_id = ''1'', name = ''Kick [Kick]''\<rparr>,
      \<lparr>note_id = ''4'', name = ''Hat [Hat]''\<rparr>]"
    by code_simp
  have f: "filter (\<lambda>e. \<exists>a b c. name e = a @ ''['' @ b @ '']'' @ c \<and> (\<forall>x\<in>set b. \<not> lineTerminator x)) ?ex =
     [\<lparr>note_id = ''1'', name = ''Kick [Kick]''\<rparr>,
      \<lparr>note_id = ''1'', name = ''Kick [Kick]''\<rparr>,
      \<lparr>note_id = ''4'', name = ''Hat [Hat]''\<rparr>]"
    unfolding bracket_on_line_iff by (rule m)
  from grouping_keeps_every_bracketed_entry [of ?ex] show ?thesis
    unfolding f by simp
qed

end
